theory Spec2Isabelle
  imports Complex_Main "HOL-Library.Sublist" "HOL-Library.While_Combinator" "HOL-Library.AList"
begin

section \<open>JavaScript values and string operations\<close>

text \<open>
  The services are TypeScript; at run time the classifier's reply is parsed by
  \<^verbatim>\<open>JSON.parse\<close> into an untyped value, and the analyzer uses JavaScript truthiness
  (\<^verbatim>\<open>x || d\<close>, \<^verbatim>\<open>if (!x)\<close>) on its fields. \<open>jsval\<close> is the type of such values; an
  object is the association list of its own properties.
\<close>

datatype jsval =
    JUndefined
  | JNull
  | JBool bool
  | JNum rat
  | JStr string
  | JArr "jsval list"
  | JObj "(string \<times> jsval) list"

fun truthy :: "jsval \<Rightarrow> bool" where
  "truthy JUndefined = False"
| "truthy JNull = False"
| "truthy (JBool b) = b"
| "truthy (JNum n) = (n \<noteq> 0)"
| "truthy (JStr s) = (s \<noteq> [])"
| "truthy (JArr xs) = True"
| "truthy (JObj ps) = True"

text \<open>\<^verbatim>\<open>a || b\<close>: the left operand when it is truthy, the right one otherwise.\<close>

definition js_or :: "jsval \<Rightarrow> jsval \<Rightarrow> jsval" where
  "js_or a b = (if truthy a then a else b)"

text \<open>\<^verbatim>\<open>obj.key\<close> on a parsed object: \<^verbatim>\<open>undefined\<close> when the property is absent.\<close>

definition get_prop :: "(string \<times> jsval) list \<Rightarrow> string \<Rightarrow> jsval" where
  "get_prop ps k = (case map_of ps k of None \<Rightarrow> JUndefined | Some v \<Rightarrow> v)"

fun is_JStr :: "jsval \<Rightarrow> bool" where
  "is_JStr (JStr s) = True"
| "is_JStr v = False"

fun str_of :: "jsval \<Rightarrow> string" where
  "str_of (JStr s) = s"
| "str_of v = []"

abbreviation backslash :: char where
  "backslash \<equiv> CHR 0x5C"

abbreviation newline :: char where
  "newline \<equiv> CHR 0x0A"

text \<open>\<^verbatim>\<open>s.replace(/c/g, d)\<close> for a single character \<open>c\<close>.\<close>

definition replace_char :: "char \<Rightarrow> char \<Rightarrow> string \<Rightarrow> string" where
  "replace_char c d s = map (\<lambda>x. if x = c then d else x) s"

text \<open>\<^verbatim>\<open>s.split(sep)\<close> for a one-character separator: never the empty list.\<close>

fun split_str :: "char \<Rightarrow> string \<Rightarrow> string list" where
  "split_str sep [] = [] # []"
| "split_str sep (c # cs) =
     (if c = sep then [] # split_str sep cs
      else (case split_str sep cs of
              [] \<Rightarrow> [c] # []
            | w # ws \<Rightarrow> (c # w) # ws))"

text \<open>\<^verbatim>\<open>parts.join(sep)\<close>.\<close>

fun join_str :: "string \<Rightarrow> string list \<Rightarrow> string" where
  "join_str sep [] = []"
| "join_str sep [x] = x"
| "join_str sep (x # y # ys) = x @ sep @ join_str sep (y # ys)"

text \<open>\<^verbatim>\<open>s.startsWith(p)\<close> is \<^const>\<open>prefix\<close>, \<^verbatim>\<open>s.endsWith(p)\<close> is \<^const>\<open>suffix\<close>.\<close>

text \<open>\<^verbatim>\<open>s.includes(sub)\<close>: \<open>sub\<close> occurs in \<open>s\<close> as a contiguous run.\<close>

fun str_includes :: "string \<Rightarrow> string \<Rightarrow> bool" where
  "str_includes [] sub = (sub = [])"
| "str_includes (c # cs) sub = (prefix sub (c # cs) \<or> str_includes cs sub)"

text \<open>
  \<^verbatim>\<open>s.trim()\<close>: white space is removed at both ends. The white-space characters
  representable in a \<open>char\<close> are tab, line feed, vertical tab, form feed, carriage
  return, space and the no-break space.
\<close>

definition is_space :: "char \<Rightarrow> bool" where
  "is_space c = (c \<in> set [CHR 0x09, CHR 0x0A, CHR 0x0B, CHR 0x0C, CHR 0x0D, CHR 0x20, CHR 0xA0])"

definition trim :: "string \<Rightarrow> string" where
  "trim s = rev (dropWhile is_space (rev (dropWhile is_space s)))"

text \<open>
  Node's \<^verbatim>\<open>path.basename(p)\<close> (POSIX flavour, no suffix argument): trailing slashes
  are dropped, then the part after the last remaining slash is returned.
\<close>

definition basename :: "string \<Rightarrow> string" where
  "basename p = rev (takeWhile (\<lambda>c. c \<noteq> CHR ''/'') (dropWhile (\<lambda>c. c = CHR ''/'') (rev p)))"

text \<open>
  The Windows flavour of \<^verbatim>\<open>path.basename(p)\<close>: a leading drive prefix (an ASCII letter
  and a colon) is skipped, and both the slash and the backslash separate path segments.
  The analyzer is modelled with the POSIX flavour; the two agree on every path without a
  backslash and without a drive prefix.
\<close>

definition is_drive_letter :: "char \<Rightarrow> bool" where
  "is_drive_letter c =
     ((65 \<le> (of_char c :: nat) \<and> (of_char c :: nat) \<le> 90) \<or>
      (97 \<le> (of_char c :: nat) \<and> (of_char c :: nat) \<le> 122))"

definition has_drive_prefix :: "string \<Rightarrow> bool" where
  "has_drive_prefix p =
     (case p of
        a # b # rest \<Rightarrow> is_drive_letter a \<and> b = CHR '':''
      | _ \<Rightarrow> False)"

definition is_win32_separator :: "char \<Rightarrow> bool" where
  "is_win32_separator c = (c = CHR ''/'' \<or> c = backslash)"

definition basename_win32 :: "string \<Rightarrow> string" where
  "basename_win32 p =
     (let body = (if has_drive_prefix p then drop 2 p else p) in
      rev (takeWhile (\<lambda>c. \<not> is_win32_separator c) (dropWhile is_win32_separator (rev body))))"

text \<open>Decimal rendering of a number inside a template literal.\<close>

definition digit_char :: "nat \<Rightarrow> char" where
  "digit_char d = char_of (48 + d)"

fun show_nat :: "nat \<Rightarrow> string" where
  "show_nat n = (if n < 10 then [digit_char n] else show_nat (n div 10) @ [digit_char (n mod 10)])"

declare show_nat.simps [simp del]

section \<open>Data model\<close>

text \<open>\<^verbatim>\<open>GraphNode\<close> and \<^verbatim>\<open>GraphEdge\<close> as the analyzer reads them.\<close>

record graph_node =
  node_id :: string
  node_type :: string

record graph_edge =
  edge_source :: string
  edge_target :: string
  edge_type :: string

record graph =
  nodes :: "graph_node list"
  edges :: "graph_edge list"

datatype severity_level = LOW | MEDIUM | HIGH | CRITICAL

record affected_file =
  repoId :: string
  filePath :: string
  reason :: string

text \<open>
  \<^verbatim>\<open>ImpactResult\<close>. The fields \<open>isBreaking\<close> and \<open>explanation\<close> are declared
  \<^verbatim>\<open>boolean\<close> and \<^verbatim>\<open>string\<close>, but are assigned from the parsed reply without a
  check, so they hold whatever JavaScript value the reply carried.
\<close>

record impact_result =
  projectId :: string
  changedFile :: string
  changedRepo :: string
  affectedFiles :: "affected_file list"
  isBreaking :: jsval
  severity :: severity_level
  explanation :: jsval
  timestamp :: string

section \<open>ImpactAnalyzer.determineSeverity\<close>

definition determineSeverity :: "int \<Rightarrow> bool \<Rightarrow> severity_level" where
  "determineSeverity affectedCount breaking =
     (if breaking \<and> affectedCount > 5 then CRITICAL
      else if breaking \<and> affectedCount > 0 then HIGH
      else if affectedCount > 10 then HIGH
      else if affectedCount > 5 then MEDIUM
      else LOW)"

section \<open>ImpactAnalyzer.findAffectedFiles\<close>

text \<open>
  \<^verbatim>\<open>const [r, ...pathParts] = id.split(':'); const p = pathParts.join(':')\<close>: the
  repository id is the part of a node id before the first colon, the file path is
  everything after it. Both the traversal and the semantic scan take node ids apart
  this way.
\<close>

definition split_id :: "string \<Rightarrow> string \<times> string" where
  "split_id s =
     (case split_str (CHR '':'') s of
        [] \<Rightarrow> ([], [])
      | r # pathParts \<Rightarrow> (r, join_str '':'' pathParts))"

text \<open>
  The state of the traversal. The \<^verbatim>\<open>Set\<close> \<open>visited\<close> is represented by the
  sequence of its \<^verbatim>\<open>add\<close> calls, in call order; \<^verbatim>\<open>visited.has(x)\<close> is membership
  in that sequence.
\<close>

record bfs_state =
  queue :: "string list"
  visited :: "string list"
  affected :: "affected_file list"

text \<open>The body of the \<^verbatim>\<open>for (const edge of dependentEdges)\<close> loop.\<close>

definition visit_edge :: "string \<Rightarrow> string \<Rightarrow> bfs_state \<Rightarrow> graph_edge \<Rightarrow> bfs_state" where
  "visit_edge changedNodeId sourceRepoId st edge =
     (if edge_source edge \<notin> set (visited st) then
        (let (edgeRepoId, edgeFilePath) = split_id (edge_source edge) in
         \<lparr> queue = queue st @ [edge_source edge],
           visited = visited st @ [edge_source edge],
           affected =
             (if edgeRepoId \<noteq> sourceRepoId
              then affected st @
                   [\<lparr> repoId = edgeRepoId, filePath = edgeFilePath,
                      reason = ''Imports '' @ basename changedNodeId \<rparr>]
              else affected st) \<rparr>)
      else st)"

definition dependentEdges :: "graph \<Rightarrow> string \<Rightarrow> graph_edge list" where
  "dependentEdges g currentNodeId =
     filter (\<lambda>e. edge_target e = currentNodeId \<and> edge_type e = ''IMPORTS'') (edges g)"

text \<open>One iteration of \<^verbatim>\<open>while (queue.length > 0)\<close>: shift the queue, visit the edges.\<close>

definition bfs_step :: "graph \<Rightarrow> string \<Rightarrow> string \<Rightarrow> bfs_state \<Rightarrow> bfs_state" where
  "bfs_step g changedNodeId sourceRepoId st =
     (case queue st of
        [] \<Rightarrow> st
      | currentNodeId # rest \<Rightarrow>
          foldl (visit_edge changedNodeId sourceRepoId) (st\<lparr>queue := rest\<rparr>)
            (dependentEdges g currentNodeId))"

definition bfs_init :: "string \<Rightarrow> bfs_state" where
  "bfs_init changedNodeId = \<lparr> queue = [changedNodeId], visited = [changedNodeId], affected = [] \<rparr>"

text \<open>The nodes one iteration adds: the sources of the edges not seen before, once each.\<close>

fun fresh_sources :: "string list \<Rightarrow> graph_edge list \<Rightarrow> string list" where
  "fresh_sources vis [] = []"
| "fresh_sources vis (e # es) =
     (if edge_source e \<in> set vis then fresh_sources vis es
      else edge_source e # fresh_sources (vis @ [edge_source e]) es)"

function bfs_loop :: "graph \<Rightarrow> string \<Rightarrow> string \<Rightarrow> bfs_state \<Rightarrow> bfs_state" where
  "bfs_loop g changedNodeId sourceRepoId st =
     (if queue st = [] then st
      else bfs_loop g changedNodeId sourceRepoId (bfs_step g changedNodeId sourceRepoId st))"
  by pat_completeness auto

lemma visited_foldl_visit_edge:
  "visited (foldl (visit_edge c s) st es) = visited st @ fresh_sources (visited st) es"
  by (induction es arbitrary: st) (simp_all add: visit_edge_def split: prod.splits)

lemma queue_foldl_visit_edge:
  "queue (foldl (visit_edge c s) st es) = queue st @ fresh_sources (visited st) es"
  by (induction es arbitrary: st) (simp_all add: visit_edge_def split: prod.splits)

lemma fresh_sources_notin: "x \<in> set (fresh_sources vis es) \<Longrightarrow> x \<notin> set vis"
proof (induction es arbitrary: vis)
  case Nil
  then show ?case by simp
next
  case (Cons e es)
  show ?case
  proof (cases "edge_source e \<in> set vis")
    case True
    with Cons show ?thesis by simp
  next
    case False
    with Cons.prems have "x = edge_source e \<or> x \<in> set (fresh_sources (vis @ [edge_source e]) es)"
      by simp
    then show ?thesis
    proof
      assume "x = edge_source e"
      with False show ?thesis by simp
    next
      assume "x \<in> set (fresh_sources (vis @ [edge_source e]) es)"
      from Cons.IH [OF this] show ?thesis by simp
    qed
  qed
qed

lemma fresh_sources_disjoint: "set (fresh_sources vis es) \<inter> set vis = {}"
  using fresh_sources_notin by blast

lemma distinct_fresh_sources: "distinct (fresh_sources vis es)"
proof (induction es arbitrary: vis)
  case Nil
  then show ?case by simp
next
  case (Cons e es)
  have "edge_source e \<notin> set (fresh_sources (vis @ [edge_source e]) es)"
    using fresh_sources_disjoint [of "vis @ [edge_source e]" es] by auto
  with Cons show ?case by simp
qed

lemma fresh_sources_subset: "set (fresh_sources vis es) \<subseteq> edge_source ` set es"
  by (induction es arbitrary: vis) auto

lemma visited_bfs_step:
  "queue st = q # rest \<Longrightarrow>
   visited (bfs_step g c s st) = visited st @ fresh_sources (visited st) (dependentEdges g q)"
  by (simp add: bfs_step_def visited_foldl_visit_edge)

lemma queue_bfs_step:
  "queue st = q # rest \<Longrightarrow>
   queue (bfs_step g c s st) = rest @ fresh_sources (visited st) (dependentEdges g q)"
  by (simp add: bfs_step_def queue_foldl_visit_edge)

definition bfs_measure :: "graph \<Rightarrow> bfs_state \<Rightarrow> nat" where
  "bfs_measure g st =
     2 * card (edge_source ` set (edges g) - set (visited st)) + length (queue st)"

lemma bfs_measure_decreases:
  assumes "queue st \<noteq> []"
  shows "bfs_measure g (bfs_step g c s st) < bfs_measure g st"
proof -
  from assms obtain q rest where q: "queue st = q # rest"
    by (cases "queue st") auto
  define new where "new = fresh_sources (visited st) (dependentEdges g q)"
  define S where "S = edge_source ` set (edges g) - set (visited st)"
  have fin: "finite S" by (simp add: S_def)
  have sub: "set new \<subseteq> S"
    using fresh_sources_subset [of "visited st" "dependentEdges g q"]
      fresh_sources_disjoint [of "visited st" "dependentEdges g q"]
    by (auto simp: new_def S_def dependentEdges_def)
  have card_new: "card (set new) = length new"
    by (simp add: new_def distinct_card distinct_fresh_sources)
  have "card (S - set new) = card S - length new"
    using card_Diff_subset [of "set new" S] sub card_new by (simp add: finite_subset [OF sub fin])
  moreover have "length new \<le> card S"
    using card_mono [OF fin sub] card_new by simp
  moreover have "edge_source ` set (edges g) - set (visited (bfs_step g c s st)) = S - set new"
    by (auto simp: visited_bfs_step [OF q] new_def S_def)
  moreover have "length (queue (bfs_step g c s st)) = length rest + length new"
    by (simp add: queue_bfs_step [OF q] new_def)
  ultimately show ?thesis
    by (simp add: bfs_measure_def q S_def)
qed

termination bfs_loop
  by (relation "measure (\<lambda>(g, c, s, st). bfs_measure g st)")
     (simp_all add: bfs_measure_decreases)

declare bfs_loop.simps [simp del]

definition findAffectedFiles :: "graph \<Rightarrow> string \<Rightarrow> string \<Rightarrow> affected_file list" where
  "findAffectedFiles g changedNodeId sourceRepoId =
     affected (bfs_loop g changedNodeId sourceRepoId (bfs_init changedNodeId))"

text \<open>What every entry of the traversal satisfies.\<close>

definition structural_entry :: "string \<Rightarrow> string \<Rightarrow> affected_file \<Rightarrow> bool" where
  "structural_entry changedNodeId sourceRepoId f =
     (repoId f \<noteq> sourceRepoId \<and> reason f = ''Imports '' @ basename changedNodeId)"

section \<open>ImpactAnalyzer.searchForAffectedFiles\<close>

text \<open>
  What reading one file of a cloned repository gives: \<^verbatim>\<open>fs.existsSync\<close> is false
  (\<open>Missing\<close>), \<^verbatim>\<open>fs.readFileSync\<close> throws (\<open>Unreadable\<close>), or the text is returned.
  The local storage is a function from the repository id and the path inside it, the two
  strings the absolute path is joined from.
\<close>

datatype file_read = Missing | Unreadable | Content string

type_synonym storage = "string \<Rightarrow> string \<Rightarrow> file_read"

text \<open>The regular expression \<^verbatim>\<open>/\.(ts|tsx|js|jsx)$/\<close> on a node id.\<close>

definition has_source_ext :: "string \<Rightarrow> bool" where
  "has_source_ext s =
     (suffix ''.ts'' s \<or> suffix ''.tsx'' s \<or> suffix ''.js'' s \<or> suffix ''.jsx'' s)"

text \<open>The inner \<^verbatim>\<open>for\<close> loop with its \<^verbatim>\<open>break\<close>: the index of the first line that
  includes \<open>fn\<close>, counted from \<open>i\<close>.\<close>

fun find_line :: "string list \<Rightarrow> string \<Rightarrow> nat \<Rightarrow> nat option" where
  "find_line [] fn i = None"
| "find_line (l # ls) fn i = (if str_includes l fn then Some i else find_line ls fn (Suc i))"

definition usages_of :: "string \<Rightarrow> string list \<Rightarrow> string list" where
  "usages_of fileContent functionList =
     (let lns = split_str newline fileContent in
      foldl (\<lambda>usages fn.
               if str_includes fileContent fn then
                 (case find_line lns fn 0 of
                    None \<Rightarrow> usages
                  | Some i \<Rightarrow> usages @ [fn @ '' (line '' @ show_nat (i + 1) @ '')''])
               else usages)
        [] functionList)"

text \<open>The body of the loop over the sampled files; a read error is caught and ignored.\<close>

definition scan_file :: "storage \<Rightarrow> string list \<Rightarrow> affected_file list \<Rightarrow> graph_node \<Rightarrow> affected_file list" where
  "scan_file fs functionList found file =
     (let (fileRepoId, filePathStr) = split_id (node_id file) in
      case fs fileRepoId filePathStr of
        Missing \<Rightarrow> found
      | Unreadable \<Rightarrow> found
      | Content fileContent \<Rightarrow>
          (let usages = usages_of fileContent functionList in
           if usages \<noteq> []
           then found @
                [\<lparr> repoId = fileRepoId, filePath = filePathStr,
                   reason = ''Uses modified functions: '' @ join_str '', '' usages \<rparr>]
           else found))"

definition otherRepoFiles :: "graph \<Rightarrow> string \<Rightarrow> graph_node list" where
  "otherRepoFiles g sourceRepoId =
     filter (\<lambda>n. node_type n = ''FILE'' \<and> \<not> prefix sourceRepoId (node_id n) \<and>
                  has_source_ext (node_id n)) (nodes g)"

definition searchForAffectedFiles :: "graph \<Rightarrow> storage \<Rightarrow> string \<Rightarrow> string list \<Rightarrow> affected_file list" where
  "searchForAffectedFiles g fs sourceRepoId changedFunctions =
     (let functionList = filter (\<lambda>f. length f > 2) (map trim changedFunctions) in
      if functionList = [] then []
      else foldl (scan_file fs functionList) [] (take 50 (otherRepoFiles g sourceRepoId)))"

text \<open>The storage in which every file that cannot be read is absent instead.\<close>

definition skip_unreadable :: "storage \<Rightarrow> storage" where
  "skip_unreadable fs r p = (case fs r p of Unreadable \<Rightarrow> Missing | x \<Rightarrow> x)"

section \<open>ImpactAnalyzer.analyzeFileChange\<close>

text \<open>
  The collaborators of one analysis: the graph that \<^verbatim>\<open>GraphService.getGraph\<close> returns,
  the local storage, the classifier (\<^verbatim>\<open>aiService.generateContent(prompt)\<close>, which
  resolves to a text or throws; the prompt is the fixed rubric around the first 2000
  characters of the old and of the new content, so the reply is a function of these two),
  \<^verbatim>\<open>JSON.parse\<close> on a text that starts with an opening brace (the object's properties,
  or \<open>None\<close> for a \<^verbatim>\<open>SyntaxError\<close>), and the clock.
\<close>

datatype ai_reply = Throws | Reply string

record env =
  env_graph :: graph
  env_fs :: storage
  env_classifier :: "string \<Rightarrow> string \<Rightarrow> ai_reply"
  env_json_parse :: "string \<Rightarrow> (string \<times> jsval) list option"
  env_now :: string

definition possibleNodeIds :: "string \<Rightarrow> string \<Rightarrow> string list" where
  "possibleNodeIds rid fpath =
     [rid @ '':'' @ replace_char backslash (CHR ''/'') fpath,
      rid @ '':'' @ fpath,
      rid @ '':'' @ replace_char (CHR ''/'') backslash fpath]"

text \<open>The loop over the candidate ids: the first one that is the id of a node.\<close>

fun find_changed :: "graph_node list \<Rightarrow> string list \<Rightarrow> string option" where
  "find_changed ns [] = None"
| "find_changed ns (nodeId # rest) =
     (case find (\<lambda>n. node_id n = nodeId) ns of
        Some changedNode \<Rightarrow> Some nodeId
      | None \<Rightarrow> find_changed ns rest)"

definition createEmptyResult :: "string \<Rightarrow> string \<Rightarrow> string \<Rightarrow> string \<Rightarrow> impact_result" where
  "createEmptyResult now pid rid fpath =
     \<lparr> projectId = pid, changedFile = fpath, changedRepo = rid, affectedFiles = [],
       isBreaking = JBool False, severity = LOW,
       explanation = JStr ''File not found in dependency graph'', timestamp = now \<rparr>"

text \<open>
  \<^verbatim>\<open>aiResponse.match(/\{[\s\S]*\}/)\<close>: the match runs from the first opening brace to
  the last closing brace after it; there is none when no closing brace follows the first
  opening one.
\<close>

definition jsonMatch :: "string \<Rightarrow> string option" where
  "jsonMatch s =
     (case dropWhile (\<lambda>c. c \<noteq> CHR ''{'') s of
        [] \<Rightarrow> None
      | b # t \<Rightarrow>
          (case dropWhile (\<lambda>c. c \<noteq> CHR ''}'') (rev t) of
             [] \<Rightarrow> None
           | r \<Rightarrow> Some (b # rev r)))"

text \<open>
  The three variables the \<^verbatim>\<open>try\<close> block assigns. An exception inside the block is
  caught and logged, so the block ends with the values assigned up to the throw.
\<close>

record classification =
  cls_isBreaking :: jsval
  cls_explanation :: jsval
  cls_semantic :: "affected_file list"

definition unclassified :: classification where
  "unclassified =
     \<lparr> cls_isBreaking = JBool False, cls_explanation = JStr ''File modified'', cls_semantic = [] \<rparr>"

text \<open>
  \<^verbatim>\<open>if (changedFunctions.length > 0) semanticAffectedFiles = await search(...)\<close>. Only a
  non-empty array of strings reaches the scan: \<^verbatim>\<open>f.trim()\<close> on an element that is not
  a string, and \<^verbatim>\<open>join\<close> on a value that is not an array, throw a \<^verbatim>\<open>TypeError\<close>,
  which the enclosing \<^verbatim>\<open>catch\<close> swallows, and a value without a positive
  \<^verbatim>\<open>length\<close> skips the call; in each case the semantic list stays empty.
\<close>

definition semantic_step :: "graph \<Rightarrow> storage \<Rightarrow> string \<Rightarrow> jsval \<Rightarrow> affected_file list" where
  "semantic_step g fs rid changedFunctions =
     (case changedFunctions of
        JArr xs \<Rightarrow>
          if xs \<noteq> [] then
            (if list_all is_JStr xs then searchForAffectedFiles g fs rid (map str_of xs)
             else [])
          else []
      | _ \<Rightarrow> [])"

definition classify :: "env \<Rightarrow> string \<Rightarrow> ai_reply \<Rightarrow> classification" where
  "classify e rid r =
     (case r of
        Throws \<Rightarrow> unclassified
      | Reply aiResponse \<Rightarrow>
          (case jsonMatch aiResponse of
             None \<Rightarrow> unclassified
           | Some m \<Rightarrow>
               (case env_json_parse e m of
                  None \<Rightarrow> unclassified
                | Some result \<Rightarrow>
                    \<lparr> cls_isBreaking = js_or (get_prop result ''isBreaking'') (JBool False),
                      cls_explanation = js_or (get_prop result ''explanation'') (JStr ''Analyzed by AI''),
                      cls_semantic =
                        semantic_step (env_graph e) (env_fs e) rid
                          (js_or (get_prop result ''changedFunctions'') (JArr [])) \<rparr>)))"

text \<open>
  \<^verbatim>\<open>new Map(entries)\<close>: a \<^verbatim>\<open>Map\<close> keeps its keys in the order of their first
  insertion, and setting a key that is present replaces its value in place.
\<close>

fun map_set :: "(string \<times> 'v) list \<Rightarrow> string \<Rightarrow> 'v \<Rightarrow> (string \<times> 'v) list" where
  "map_set [] k v = [(k, v)]"
| "map_set ((k', v') # m) k v =
     (if k' = k then (k', v) # m else (k', v') # map_set m k v)"

definition new_Map :: "(string \<times> 'v) list \<Rightarrow> (string \<times> 'v) list" where
  "new_Map entries = foldl (\<lambda>m (k, v). map_set m k v) [] entries"

definition entry_key :: "affected_file \<Rightarrow> string" where
  "entry_key f = repoId f @ '':'' @ filePath f"

definition uniqueAffectedFiles :: "affected_file list \<Rightarrow> affected_file list" where
  "uniqueAffectedFiles allAffectedFiles =
     map snd (new_Map (map (\<lambda>f. (entry_key f, f)) allAffectedFiles))"

text \<open>\<^verbatim>\<open>if (oldContent && newContent)\<close>: an absent and an empty content are both falsy.\<close>

definition classification_of :: "env \<Rightarrow> string \<Rightarrow> string option \<Rightarrow> string option \<Rightarrow> classification" where
  "classification_of e rid oldContent newContent =
     (case (oldContent, newContent) of
        (Some old, Some new) \<Rightarrow>
          if old \<noteq> [] \<and> new \<noteq> []
          then classify e rid (env_classifier e (take 2000 old) (take 2000 new))
          else unclassified
      | _ \<Rightarrow> unclassified)"

definition analyzeFileChange ::
  "env \<Rightarrow> string \<Rightarrow> string \<Rightarrow> string \<Rightarrow> string option \<Rightarrow> string option \<Rightarrow> impact_result" where
  "analyzeFileChange e pid rid fpath oldContent newContent =
     (case find_changed (nodes (env_graph e)) (possibleNodeIds rid fpath) of
        None \<Rightarrow> createEmptyResult (env_now e) pid rid fpath
      | Some changedNodeId \<Rightarrow>
          (let graphAffectedFiles = findAffectedFiles (env_graph e) changedNodeId rid;
               cls = classification_of e rid oldContent newContent;
               allAffectedFiles = graphAffectedFiles @ cls_semantic cls;
               unique = uniqueAffectedFiles allAffectedFiles
           in if \<not> truthy (cls_isBreaking cls) then
                \<lparr> projectId = pid, changedFile = fpath, changedRepo = rid, affectedFiles = [],
                  isBreaking = cls_isBreaking cls, severity = LOW,
                  explanation = js_or (cls_explanation cls) (JStr ''Non-breaking change detected''),
                  timestamp = env_now e \<rparr>
              else
                \<lparr> projectId = pid, changedFile = fpath, changedRepo = rid,
                  affectedFiles = unique,
                  isBreaking = cls_isBreaking cls,
                  severity = determineSeverity (int (length unique)) (truthy (cls_isBreaking cls)),
                  explanation = cls_explanation cls,
                  timestamp = env_now e \<rparr>))"

section \<open>AIService.generateContent\<close>

text \<open>
  What one call of the model gives: a text, or an error with the two fields the
  \<^verbatim>\<open>catch\<close> block reads (\<open>None\<close> for an absent one).
\<close>

record api_error =
  message :: "string option"
  status :: "int option"

datatype attempt_outcome = Replied string | Failed api_error

text \<open>\<^verbatim>\<open>error.message?.includes('429') || error.status === 429\<close>.\<close>

definition isRateLimit :: "api_error \<Rightarrow> bool" where
  "isRateLimit err =
     ((case message err of None \<Rightarrow> False | Some m \<Rightarrow> str_includes m ''429'') \<or>
      status err = Some 429)"

text \<open>What the method does to the outside: calls of the model and sleeps (milliseconds).\<close>

datatype event = Call nat | Sleep nat

text \<open>
  The \<^verbatim>\<open>for (let attempt = 1; attempt <= retries; attempt++)\<close> loop; \<open>api n\<close> is the
  outcome of the call made in attempt \<open>n\<close>. After a failure that is not a rate limit,
  and is not the last attempt, control reaches the end of the loop body and the loop
  goes on.
\<close>

function generateContent_loop ::
  "(nat \<Rightarrow> attempt_outcome) \<Rightarrow> nat \<Rightarrow> nat \<Rightarrow> event list \<Rightarrow> string \<times> event list" where
  "generateContent_loop api retries attempt trace =
     (if attempt \<le> retries then
        (case api attempt of
           Replied t \<Rightarrow> (t, trace @ [Call attempt])
         | Failed err \<Rightarrow>
             if isRateLimit err \<and> attempt < retries then
               generateContent_loop api retries (attempt + 1)
                 (trace @ [Call attempt, Sleep (2 ^ attempt * 1000)])
             else if attempt = retries then ([], trace @ [Call attempt])
             else generateContent_loop api retries (attempt + 1) (trace @ [Call attempt]))
      else ([], trace))"
  by pat_completeness auto
termination
  by (relation "measure (\<lambda>(api, retries, attempt, trace). Suc retries - attempt)") auto

declare generateContent_loop.simps [simp del]

text \<open>\<open>configured\<close>: the API key is set (\<^verbatim>\<open>genAI\<close> is not null).\<close>

definition generateContent :: "bool \<Rightarrow> (nat \<Rightarrow> attempt_outcome) \<Rightarrow> nat \<Rightarrow> string \<times> event list" where
  "generateContent configured api retries =
     (if \<not> configured then ([], []) else generateContent_loop api retries 1 [])"

definition calls :: "event list \<Rightarrow> nat list" where
  "calls trace = concat (map (\<lambda>ev. case ev of Call n \<Rightarrow> [n] | Sleep d \<Rightarrow> []) trace)"

definition sleeps :: "event list \<Rightarrow> nat list" where
  "sleeps trace = concat (map (\<lambda>ev. case ev of Call n \<Rightarrow> [] | Sleep d \<Rightarrow> [d]) trace)"

text \<open>An attempt failed; it failed with a rate-limit error.\<close>

definition failed :: "attempt_outcome \<Rightarrow> bool" where
  "failed out = (case out of Replied t \<Rightarrow> False | Failed err \<Rightarrow> True)"

definition rate_limited :: "attempt_outcome \<Rightarrow> bool" where
  "rate_limited out = (case out of Replied t \<Rightarrow> False | Failed err \<Rightarrow> isRateLimit err)"

section \<open>Scenarios\<close>

text \<open>
  Small project graphs and collaborators on which the properties below are exercised.
  In \<open>scenario_graph\<close>, repository R1 has \<open>a.ts\<close> importing \<open>b.ts\<close>, and \<open>c.ts\<close> of
  repository R2 imports \<open>a.ts\<close> of R1. \<open>nested_graph\<close> is the same project with the
  files of R1 in a directory. In \<open>cycle_graph\<close>, \<open>a.ts\<close> and \<open>b.ts\<close> of R1 import
  each other and \<open>c.ts\<close> of R2 imports \<open>b.ts\<close>.
\<close>

definition file_node :: "string \<Rightarrow> graph_node" where
  "file_node i = \<lparr> node_id = i, node_type = ''FILE'' \<rparr>"

definition imports_edge :: "string \<Rightarrow> string \<Rightarrow> graph_edge" where
  "imports_edge s t = \<lparr> edge_source = s, edge_target = t, edge_type = ''IMPORTS'' \<rparr>"

definition scenario_graph :: graph where
  "scenario_graph =
     \<lparr> nodes = [file_node ''R1:a.ts'', file_node ''R1:b.ts'', file_node ''R2:c.ts''],
       edges = [imports_edge ''R1:a.ts'' ''R1:b.ts'', imports_edge ''R2:c.ts'' ''R1:a.ts''] \<rparr>"

definition nested_graph :: graph where
  "nested_graph =
     \<lparr> nodes = [file_node ''R1:src/a.ts'', file_node ''R1:src/b.ts'', file_node ''R2:c.ts''],
       edges = [imports_edge ''R1:src/a.ts'' ''R1:src/b.ts'',
                imports_edge ''R2:c.ts'' ''R1:src/a.ts''] \<rparr>"

definition cycle_graph :: graph where
  "cycle_graph =
     \<lparr> nodes = [file_node ''R1:a.ts'', file_node ''R1:b.ts'', file_node ''R2:c.ts''],
       edges = [imports_edge ''R1:a.ts'' ''R1:b.ts'', imports_edge ''R1:b.ts'' ''R1:a.ts'',
                imports_edge ''R2:c.ts'' ''R1:b.ts''] \<rparr>"

text \<open>Local storage in which only \<open>c.ts\<close> of R2 exists; it calls \<open>foo\<close> on its first line.\<close>

definition scenario_fs :: storage where
  "scenario_fs r p = (if r = ''R2'' \<and> p = ''c.ts'' then Content ''foo(1)'' else Missing)"

text \<open>Collaborators whose classifier replies with a text that parses to the object \<open>obj\<close>.\<close>

definition scenario_env :: "graph \<Rightarrow> (string \<times> jsval) list \<Rightarrow> env" where
  "scenario_env g obj =
     \<lparr> env_graph = g, env_fs = scenario_fs,
       env_classifier = (\<lambda>old new. Reply ''{}''),
       env_json_parse = (\<lambda>s. Some obj),
       env_now = ''2026-01-01T00:00:00.000Z'' \<rparr>"

text \<open>Storage in which every read fails, and a classifier that throws.\<close>

definition unreadable_fs :: storage where
  "unreadable_fs r p = Unreadable"

definition throwing_classifier :: "string \<Rightarrow> string \<Rightarrow> ai_reply" where
  "throwing_classifier old new = Throws"

definition breaking_reply :: "(string \<times> jsval) list" where
  "breaking_reply = [(''changedFunctions'', JArr []), (''isBreaking'', JBool True)]"

definition breaking_foo_reply :: "(string \<times> jsval) list" where
  "breaking_foo_reply = [(''changedFunctions'', JArr [JStr ''foo'']), (''isBreaking'', JBool True)]"

definition nonbreaking_foo_reply :: "(string \<times> jsval) list" where
  "nonbreaking_foo_reply = [(''changedFunctions'', JArr [JStr ''foo'']), (''isBreaking'', JBool False)]"

text \<open>Collaborators that fail: the classifier throws and no file can be read.\<close>

definition failing_env :: env where
  "failing_env =
     (scenario_env scenario_graph breaking_foo_reply)
       \<lparr> env_fs := unreadable_fs, env_classifier := throwing_classifier \<rparr>"

text \<open>Collaborators whose classifier reports a breaking change of \<open>foo\<close>, but no file
  can be read.\<close>

definition unreadable_env :: env where
  "unreadable_env = (scenario_env scenario_graph breaking_foo_reply) \<lparr> env_fs := unreadable_fs \<rparr>"

text \<open>
  A model API whose first call fails with a server error and whose later calls reply, and
  one whose every call is rejected with a rate-limit error.
\<close>

definition server_error :: api_error where
  "server_error = \<lparr> message = Some ''500 Internal Server Error'', status = Some 500 \<rparr>"

definition flaky_api :: "nat \<Rightarrow> attempt_outcome" where
  "flaky_api n = (if n = 1 then Failed server_error else Replied ''ok'')"

definition rate_limit_error :: api_error where
  "rate_limit_error = \<lparr> message = Some ''429 Too Many Requests'', status = Some 429 \<rparr>"

definition throttled_api :: "nat \<Rightarrow> attempt_outcome" where
  "throttled_api n = Failed rate_limit_error"

section \<open>Properties\<close>

text \<open>
  C2. The severity is a function of the breaking flag and the number of affected files
  alone. For a breaking change it is CRITICAL from 6 files on, HIGH for 1 to 5 and LOW
  for none; for a non-breaking one it is HIGH from 11 on, MEDIUM for 6 to 10 and LOW up
  to 5. The boundaries 5/6, 0/1 and 10/11 each change the level on their own.
\<close>

theorem determineSeverity_table:
  "(breaking \<and> n > 5 \<longrightarrow> determineSeverity n breaking = CRITICAL) \<and>
   (breaking \<and> 0 < n \<and> n \<le> 5 \<longrightarrow> determineSeverity n breaking = HIGH) \<and>
   (\<not> breaking \<and> n > 10 \<longrightarrow> determineSeverity n breaking = HIGH) \<and>
   (\<not> breaking \<and> 5 < n \<and> n \<le> 10 \<longrightarrow> determineSeverity n breaking = MEDIUM) \<and>
   (\<not> breaking \<and> n \<le> 5 \<longrightarrow> determineSeverity n breaking = LOW) \<and>
   (n \<le> 0 \<longrightarrow> determineSeverity n breaking = LOW) \<and>
   determineSeverity 6 True = CRITICAL \<and> determineSeverity 5 True = HIGH \<and>
   determineSeverity 1 True = HIGH \<and> determineSeverity 0 True = LOW \<and>
   determineSeverity 0 False = LOW \<and>
   determineSeverity 11 False = HIGH \<and> determineSeverity 10 False = MEDIUM \<and>
   determineSeverity 6 False = MEDIUM \<and> determineSeverity 5 False = LOW"
  by (simp add: determineSeverity_def)

theorem determineSeverity_table_witness:
  "determineSeverity 7 True = CRITICAL \<and> determineSeverity 3 True = HIGH \<and>
   determineSeverity 12 False = HIGH \<and> determineSeverity 8 False = MEDIUM \<and>
   determineSeverity 2 False = LOW \<and> determineSeverity (- 1) True = LOW"
  using determineSeverity_table [of True 7] determineSeverity_table [of True 3]
    determineSeverity_table [of False 12] determineSeverity_table [of False 8]
    determineSeverity_table [of False 2] determineSeverity_table [of True "- 1"]
  by simp

lemma while_bfs_loop:
  "while_option (\<lambda>s. queue s \<noteq> []) (bfs_step g c r) st = Some (bfs_loop g c r st)"
proof (induction g c r st rule: bfs_loop.induct)
  case (1 g c r st)
  show ?case
  proof (cases "queue st = []")
    case True
    then show ?thesis
      by (subst while_option_unfold, subst bfs_loop.simps) simp
  next
    case False
    with "1.IH" show ?thesis
      by (subst while_option_unfold, subst bfs_loop.simps) simp
  qed
qed

lemma distinct_visited_bfs_step:
  assumes "distinct (visited st)"
  shows "distinct (visited (bfs_step g c r st))"
proof (cases "queue st")
  case Nil
  with assms show ?thesis by (simp add: bfs_step_def)
next
  case (Cons q rest)
  with assms show ?thesis
    using fresh_sources_disjoint [of "visited st" "dependentEdges g q"]
    by (auto simp: visited_bfs_step distinct_fresh_sources)
qed

lemma distinct_visited_bfs_loop:
  "distinct (visited st) \<Longrightarrow> distinct (visited (bfs_loop g c r st))"
proof (induction g c r st rule: bfs_loop.induct)
  case (1 g c r st)
  show ?case
  proof (cases "queue st = []")
    case True
    with "1.prems" show ?thesis by (subst bfs_loop.simps) simp
  next
    case False
    from "1.IH" [OF False distinct_visited_bfs_step [OF "1.prems"]] False
    show ?thesis by (subst bfs_loop.simps) simp
  qed
qed

lemma visited_subset_bfs_step:
  assumes "set (visited st) \<subseteq> V \<union> edge_source ` set (edges g)"
  shows "set (visited (bfs_step g c r st)) \<subseteq> V \<union> edge_source ` set (edges g)"
proof (cases "queue st")
  case Nil
  with assms show ?thesis by (simp add: bfs_step_def)
next
  case (Cons q rest)
  have "set (fresh_sources (visited st) (dependentEdges g q)) \<subseteq> edge_source ` set (edges g)"
    using fresh_sources_subset [of "visited st" "dependentEdges g q"]
    by (auto simp: dependentEdges_def)
  with assms Cons show ?thesis
    by (auto simp: visited_bfs_step)
qed

lemma visited_subset_bfs_loop:
  "set (visited st) \<subseteq> V \<union> edge_source ` set (edges g) \<Longrightarrow>
   set (visited (bfs_loop g c r st)) \<subseteq> V \<union> edge_source ` set (edges g)"
proof (induction g c r st rule: bfs_loop.induct)
  case (1 g c r st)
  show ?case
  proof (cases "queue st = []")
    case True
    with "1.prems" show ?thesis by (subst bfs_loop.simps) simp
  next
    case False
    from "1.IH" [OF False visited_subset_bfs_step [OF "1.prems"]] False
    show ?thesis by (subst bfs_loop.simps) simp
  qed
qed

lemma queue_bfs_loop: "queue (bfs_loop g c r st) = []"
proof (induction g c r st rule: bfs_loop.induct)
  case (1 g c r st)
  then show ?case
    by (cases "queue st = []") (subst bfs_loop.simps, simp)+
qed

text \<open>
  C3. The \<^verbatim>\<open>while\<close> loop of the reverse-dependency traversal terminates on every
  graph, cyclic or not: run as a loop that might diverge, it reaches a state with an empty
  queue, and that state is the one \<open>findAffectedFiles\<close> reads its result from. In it
  no node id was added to the visited set twice, so at most one id for the start and one
  per edge were ever added.
\<close>

theorem findAffectedFiles_terminates:
  "\<exists>st. while_option (\<lambda>s. queue s \<noteq> []) (bfs_step g c r) (bfs_init c) = Some st \<and>
        findAffectedFiles g c r = affected st \<and>
        queue st = [] \<and>
        distinct (visited st) \<and>
        length (visited st) \<le> Suc (length (edges g))"
proof -
  let ?st = "bfs_loop g c r (bfs_init c)"
  have d: "distinct (visited ?st)"
    by (rule distinct_visited_bfs_loop) (simp add: bfs_init_def)
  have "set (visited ?st) \<subseteq> {c} \<union> edge_source ` set (edges g)"
    by (rule visited_subset_bfs_loop) (simp add: bfs_init_def)
  then have "card (set (visited ?st)) \<le> card ({c} \<union> edge_source ` set (edges g))"
    by (intro card_mono) auto
  also have "\<dots> \<le> Suc (card (edge_source ` set (edges g)))"
    by (simp add: card_insert_if)
  also have "\<dots> \<le> Suc (length (edges g))"
    using card_image_le [of "set (edges g)" edge_source] card_length [of "edges g"] by simp
  finally have "length (visited ?st) \<le> Suc (length (edges g))"
    using d by (simp add: distinct_card)
  with d show ?thesis
    by (intro exI [of _ ?st]) (simp add: while_bfs_loop findAffectedFiles_def queue_bfs_loop)
qed

lemma bfs_cycle_example:
  "visited (bfs_loop cycle_graph ''R1:a.ts'' ''R1'' (bfs_init ''R1:a.ts'')) = [''R1:a.ts'', ''R1:b.ts'', ''R2:c.ts'']"
  by code_simp

theorem findAffectedFiles_terminates_witness:
  "\<exists>st. while_option (\<lambda>s. queue s \<noteq> []) (bfs_step cycle_graph ''R1:a.ts'' ''R1'') (bfs_init ''R1:a.ts'') = Some st \<and>
        queue st = [] \<and> visited st = [''R1:a.ts'', ''R1:b.ts'', ''R2:c.ts''] \<and> distinct (visited st) \<and> length (visited st) \<le> 4"
proof -
  from findAffectedFiles_terminates [of cycle_graph "''R1:a.ts''" "''R1''"]
  obtain st where st: "while_option (\<lambda>s. queue s \<noteq> []) (bfs_step cycle_graph ''R1:a.ts'' ''R1'') (bfs_init ''R1:a.ts'') = Some st"
    and rest: "queue st = []" "distinct (visited st)" "length (visited st) \<le> Suc (length (edges cycle_graph))"
    by blast
  have "st = bfs_loop cycle_graph ''R1:a.ts'' ''R1'' (bfs_init ''R1:a.ts'')"
    using st by (simp add: while_bfs_loop)
  then have "visited st = [''R1:a.ts'', ''R1:b.ts'', ''R2:c.ts'']"
    by (simp add: bfs_cycle_example)
  with st rest show ?thesis by (simp add: cycle_graph_def)
qed

lemma notin_image: "\<forall>x \<in> A. f x \<noteq> c \<Longrightarrow> c \<notin> f ` A"
  by blast

lemma disjoint_sets: "\<forall>x \<in> A. x \<notin> B \<Longrightarrow> A \<inter> B = {}"
  by blast

lemma classify_falsy:
  "\<not> truthy (cls_isBreaking (classify e rid r)) \<Longrightarrow> cls_isBreaking (classify e rid r) = JBool False"
  by (auto simp: classify_def unclassified_def js_or_def split: ai_reply.splits option.splits if_splits)

lemma classification_of_falsy:
  "\<not> truthy (cls_isBreaking (classification_of e rid oc nc)) \<Longrightarrow>
   cls_isBreaking (classification_of e rid oc nc) = JBool False"
  by (auto simp: classification_of_def unclassified_def classify_falsy split: option.splits if_splits)

text \<open>
  C1. Whenever the result of \<open>analyzeFileChange\<close> carries a falsy breaking flag, its
  list of affected files is empty, its severity is LOW and the flag is the boolean
  \<^verbatim>\<open>false\<close>, whatever the traversal and the semantic scan found.
\<close>

theorem analyzeFileChange_nonbreaking:
  assumes "\<not> truthy (isBreaking (analyzeFileChange e pid rid fpath oldContent newContent))"
  shows "affectedFiles (analyzeFileChange e pid rid fpath oldContent newContent) = [] \<and>
         severity (analyzeFileChange e pid rid fpath oldContent newContent) = LOW \<and>
         isBreaking (analyzeFileChange e pid rid fpath oldContent newContent) = JBool False"
proof (cases "find_changed (nodes (env_graph e)) (possibleNodeIds rid fpath)")
  case None
  then show ?thesis
    by (simp add: analyzeFileChange_def createEmptyResult_def)
next
  case (Some changedNodeId)
  let ?cls = "classification_of e rid oldContent newContent"
  from assms Some have "\<not> truthy (cls_isBreaking ?cls)"
    by (auto simp: analyzeFileChange_def Let_def split: if_splits)
  moreover from this have "cls_isBreaking ?cls = JBool False"
    by (rule classification_of_falsy)
  ultimately show ?thesis using Some
    by (simp add: analyzeFileChange_def Let_def)
qed

theorem analyzeFileChange_nonbreaking_witness:
  "findAffectedFiles scenario_graph ''R1:a.ts'' ''R1'' \<noteq> [] \<and>
   cls_semantic (classification_of (scenario_env scenario_graph nonbreaking_foo_reply) ''R1'' (Some ''old'') (Some ''new'')) \<noteq> [] \<and>
   \<not> truthy (isBreaking (analyzeFileChange (scenario_env scenario_graph nonbreaking_foo_reply)
        ''P'' ''R1'' ''a.ts'' (Some ''old'') (Some ''new''))) \<and>
   affectedFiles (analyzeFileChange (scenario_env scenario_graph nonbreaking_foo_reply)
        ''P'' ''R1'' ''a.ts'' (Some ''old'') (Some ''new'')) = [] \<and>
   severity (analyzeFileChange (scenario_env scenario_graph nonbreaking_foo_reply)
        ''P'' ''R1'' ''a.ts'' (Some ''old'') (Some ''new'')) = LOW"
proof -
  have h: "\<not> truthy (isBreaking (analyzeFileChange (scenario_env scenario_graph nonbreaking_foo_reply)
        ''P'' ''R1'' ''a.ts'' (Some ''old'') (Some ''new'')))"
    by code_simp
  have s: "findAffectedFiles scenario_graph ''R1:a.ts'' ''R1'' \<noteq> []"
    by code_simp
  have t: "cls_semantic (classification_of (scenario_env scenario_graph nonbreaking_foo_reply) ''R1'' (Some ''old'') (Some ''new'')) \<noteq> []"
    by code_simp
  from analyzeFileChange_nonbreaking [OF h] h s t show ?thesis by simp
qed

lemma find_Some_mem: "find P xs = Some x \<Longrightarrow> x \<in> set xs \<and> P x"
  by (induction xs) (auto split: if_splits)

lemma find_changed_None:
  "find_changed ns cs = None \<longleftrightarrow> (\<forall>c \<in> set cs. c \<notin> node_id ` set ns)"
  by (induction cs) (auto simp: find_None_iff split: option.splits dest: find_Some_mem)

text \<open>
  C6, as the code has it. When none of the three candidate node ids is the id of a node of
  the graph, \<open>analyzeFileChange\<close> returns, without an error, the result with no
  affected files, severity LOW, breaking flag \<^verbatim>\<open>false\<close> and the explanation
  \<^verbatim>\<open>File not found in dependency graph\<close>, spelled with a capital F.
\<close>

theorem analyzeFileChange_not_found:
  assumes "\<forall>c \<in> set (possibleNodeIds rid fpath). c \<notin> node_id ` set (nodes (env_graph e))"
  shows "analyzeFileChange e pid rid fpath oldContent newContent =
           \<lparr> projectId = pid, changedFile = fpath, changedRepo = rid, affectedFiles = [],
             isBreaking = JBool False, severity = LOW,
             explanation = JStr ''File not found in dependency graph'',
             timestamp = env_now e \<rparr>"
  using assms
  by (simp add: analyzeFileChange_def find_changed_None [symmetric] createEmptyResult_def
      del: find_changed.simps)

theorem analyzeFileChange_not_found_witness:
  "set (possibleNodeIds ''R1'' ''z.ts'') \<inter>
     node_id ` set (nodes (env_graph (scenario_env scenario_graph breaking_reply))) = {} \<and>
   analyzeFileChange (scenario_env scenario_graph breaking_reply) ''P'' ''R1'' ''z.ts'' (Some ''old'') (Some ''new'') =
           \<lparr> projectId = ''P'', changedFile = ''z.ts'', changedRepo = ''R1'', affectedFiles = [],
             isBreaking = JBool False, severity = LOW,
             explanation = JStr ''File not found in dependency graph'',
             timestamp = ''2026-01-01T00:00:00.000Z'' \<rparr>"
proof -
  have h: "\<forall>c \<in> set (possibleNodeIds ''R1'' ''z.ts''). c \<notin> node_id ` set (nodes (env_graph (scenario_env scenario_graph breaking_reply)))"
    by (simp add: possibleNodeIds_def scenario_env_def scenario_graph_def file_node_def replace_char_def)
  from h have "set (possibleNodeIds ''R1'' ''z.ts'') \<inter>
     node_id ` set (nodes (env_graph (scenario_env scenario_graph breaking_reply))) = {}"
    by (rule disjoint_sets)
  moreover have "env_now (scenario_env scenario_graph breaking_reply) = ''2026-01-01T00:00:00.000Z''"
    by (simp add: scenario_env_def)
  ultimately show ?thesis
    using analyzeFileChange_not_found [OF h, of "''P''" "Some ''old''" "Some ''new''"]
    by (simp only:)
qed

text \<open>
  The explanation is not the lower-case string \<^verbatim>\<open>file not found in dependency graph\<close>:
  in \<open>scenario_graph\<close> repository R1 has no file \<open>z.ts\<close>.
\<close>

theorem not_found_explanation_counterexample:
  "explanation (analyzeFileChange (scenario_env scenario_graph breaking_reply) ''P'' ''R1'' ''z.ts'' None None)
     \<noteq> JStr ''file not found in dependency graph''"
  by code_simp

lemma classification_of_no_content:
  "oldContent = None \<or> oldContent = Some [] \<or> newContent = None \<or> newContent = Some [] \<Longrightarrow>
   classification_of e rid oldContent newContent = unclassified"
  by (auto simp: classification_of_def split: option.splits)

text \<open>
  C10. When the old or the new content is absent or empty, the classifier is not
  consulted: the result is the same whatever classifier, parser and storage are plugged
  in, its breaking flag is \<^verbatim>\<open>false\<close>, its list of affected files is empty and its
  severity is LOW, whatever the traversal found.
\<close>

theorem analyzeFileChange_without_content:
  assumes "oldContent = None \<or> oldContent = Some [] \<or> newContent = None \<or> newContent = Some []"
  shows "isBreaking (analyzeFileChange e pid rid fpath oldContent newContent) = JBool False \<and>
         affectedFiles (analyzeFileChange e pid rid fpath oldContent newContent) = [] \<and>
         severity (analyzeFileChange e pid rid fpath oldContent newContent) = LOW \<and>
         analyzeFileChange (e\<lparr>env_classifier := c', env_json_parse := p', env_fs := fs'\<rparr>)
             pid rid fpath oldContent newContent
           = analyzeFileChange e pid rid fpath oldContent newContent"
proof -
  have u: "classification_of e rid oldContent newContent = unclassified"
    using assms by (rule classification_of_no_content)
  have u': "classification_of (e\<lparr>env_classifier := c', env_json_parse := p', env_fs := fs'\<rparr>)
               rid oldContent newContent = unclassified"
    using assms by (rule classification_of_no_content)
  show ?thesis
    by (simp add: analyzeFileChange_def u u' unclassified_def createEmptyResult_def Let_def
        split: option.splits)
qed

theorem analyzeFileChange_without_content_witness:
  "findAffectedFiles scenario_graph ''R1:a.ts'' ''R1'' \<noteq> [] \<and>
   isBreaking (analyzeFileChange (scenario_env scenario_graph breaking_foo_reply)
       ''P'' ''R1'' ''a.ts'' (Some ''old'') None) = JBool False \<and>
   affectedFiles (analyzeFileChange (scenario_env scenario_graph breaking_foo_reply)
       ''P'' ''R1'' ''a.ts'' (Some ''old'') None) = [] \<and>
   severity (analyzeFileChange (scenario_env scenario_graph breaking_foo_reply)
       ''P'' ''R1'' ''a.ts'' (Some ''old'') None) = LOW \<and>
   affectedFiles (analyzeFileChange (scenario_env scenario_graph breaking_foo_reply)
       ''P'' ''R1'' ''a.ts'' (Some ''old'') (Some ''new'')) \<noteq> []"
proof -
  have s: "findAffectedFiles scenario_graph ''R1:a.ts'' ''R1'' \<noteq> []"
    by code_simp
  have b: "affectedFiles (analyzeFileChange (scenario_env scenario_graph breaking_foo_reply)
       ''P'' ''R1'' ''a.ts'' (Some ''old'') (Some ''new'')) \<noteq> []"
    by code_simp
  have h: "Some ''old'' = None \<or> Some ''old'' = Some [] \<or> (None :: string option) = None \<or> None = Some []"
    by simp
  from analyzeFileChange_without_content [OF h, of "scenario_env scenario_graph breaking_foo_reply" "''P''" "''R1''" "''a.ts''"]
    s b show ?thesis by simp
qed

subsection \<open>Deduplication through a Map\<close>

lemma map_set_update: "map_set m k v = AList.update k v m"
  by (induction m) auto

lemma new_Map_snoc: "new_Map (ps @ [(k, v)]) = map_set (new_Map ps) k v"
  by (simp add: new_Map_def)

lemma new_Map_Nil: "new_Map [] = []"
  by (simp add: new_Map_def)

lemma map_of_new_Map: "map_of (new_Map ps) = map_of (rev ps)"
proof (induction ps rule: rev_induct)
  case Nil
  show ?case by (simp add: new_Map_Nil)
next
  case (snoc p ps)
  obtain k v where p: "p = (k, v)" by (cases p)
  show ?case
    by (simp add: p new_Map_snoc map_set_update update_conv' snoc.IH)
qed

lemma keys_new_Map: "map fst (new_Map ps) = rev (remdups (rev (map fst ps)))"
proof (induction ps rule: rev_induct)
  case Nil
  show ?case by (simp add: new_Map_Nil)
next
  case (snoc p ps)
  obtain k v where p: "p = (k, v)" by (cases p)
  have "set (map fst (new_Map ps)) = set (map fst ps)"
    by (simp add: snoc.IH)
  then show ?case
    by (auto simp: p new_Map_snoc map_set_update update_keys snoc.IH)
qed

lemma distinct_keys_new_Map: "distinct (map fst (new_Map ps))"
  by (simp add: keys_new_Map)

lemma map_of_rev_keyed:
  "map_of (rev (map (\<lambda>x. (key x, x)) xs)) k = Some f \<Longrightarrow>
   f = last (filter (\<lambda>x. key x = k) xs) \<and> f \<in> set xs \<and> key f = k"
proof (induction xs rule: rev_induct)
  case Nil
  then show ?case by simp
next
  case (snoc x xs)
  then show ?case by (cases "key x = k") auto
qed

lemmas map_of_rev_keyed_last = map_of_rev_keyed [THEN conjunct1]
lemmas map_of_rev_keyed_mem = map_of_rev_keyed [THEN conjunct2, THEN conjunct1]
lemmas map_of_rev_keyed_key = map_of_rev_keyed [THEN conjunct2, THEN conjunct2]

lemma uniqueAffectedFiles_keys:
  "map entry_key (uniqueAffectedFiles xs) = rev (remdups (rev (map entry_key xs)))"
proof -
  let ?m = "new_Map (map (\<lambda>f. (entry_key f, f)) xs)"
  have "\<forall>p \<in> set ?m. fst p = entry_key (snd p)"
  proof
    fix p assume "p \<in> set ?m"
    then have "map_of ?m (fst p) = Some (snd p)"
      using distinct_keys_new_Map [of "map (\<lambda>f. (entry_key f, f)) xs"] by simp
    then have "map_of (rev (map (\<lambda>f. (entry_key f, f)) xs)) (fst p) = Some (snd p)"
      by (simp add: map_of_new_Map)
    from map_of_rev_keyed_key [OF this] show "fst p = entry_key (snd p)" by (rule sym)
  qed
  then have "map entry_key (map snd ?m) = map fst ?m"
    by (induction ?m) auto
  then show ?thesis
    by (simp add: uniqueAffectedFiles_def keys_new_Map comp_def)
qed

lemma uniqueAffectedFiles_last:
  assumes "f \<in> set (uniqueAffectedFiles xs)"
  shows "f = last (filter (\<lambda>x. entry_key x = entry_key f) xs) \<and> f \<in> set xs"
proof -
  let ?m = "new_Map (map (\<lambda>f. (entry_key f, f)) xs)"
  from assms obtain k where "(k, f) \<in> set ?m"
    by (auto simp: uniqueAffectedFiles_def)
  then have "map_of ?m k = Some f"
    using distinct_keys_new_Map [of "map (\<lambda>f. (entry_key f, f)) xs"] by simp
  then have "map_of (rev (map (\<lambda>f. (entry_key f, f)) xs)) k = Some f"
    by (simp add: map_of_new_Map)
  then have a: "f = last (filter (\<lambda>x. entry_key x = k) xs)" and b: "f \<in> set xs"
    and c: "entry_key f = k"
    by (rule map_of_rev_keyed_last, rule map_of_rev_keyed_mem, rule map_of_rev_keyed_key)
  from a b show ?thesis unfolding c by (rule conjI)
qed

lemma set_uniqueAffectedFiles: "set (uniqueAffectedFiles xs) \<subseteq> set xs"
  using uniqueAffectedFiles_last by blast

text \<open>
  C5, as the code has it. The concatenation of the structural and the semantic list is
  deduplicated by the key \<^verbatim>\<open>repoId:filePath\<close>: the keys of the result are distinct,
  they are the keys of the concatenation in the order of their first occurrence, and the
  entry that survives for a key is the last entry with that key, so a later entry does
  overwrite an earlier one: for a file found by both, the semantic entry and its reason
  survive.
\<close>

theorem uniqueAffectedFiles_last_wins:
  "distinct (map entry_key (uniqueAffectedFiles (structural @ semantic))) \<and>
   map entry_key (uniqueAffectedFiles (structural @ semantic)) =
     rev (remdups (rev (map entry_key (structural @ semantic)))) \<and>
   (\<forall>f \<in> set (uniqueAffectedFiles (structural @ semantic)).
      f = last (filter (\<lambda>x. entry_key x = entry_key f) (structural @ semantic))) \<and>
   (\<forall>f \<in> set (uniqueAffectedFiles (structural @ semantic)).
      entry_key f \<in> entry_key ` set semantic \<longrightarrow> f \<in> set semantic)"
proof (intro conjI ballI impI)
  show "distinct (map entry_key (uniqueAffectedFiles (structural @ semantic)))"
    by (simp only: uniqueAffectedFiles_keys distinct_rev distinct_remdups)
  show "map entry_key (uniqueAffectedFiles (structural @ semantic)) =
          rev (remdups (rev (map entry_key (structural @ semantic))))"
    by (rule uniqueAffectedFiles_keys)
next
  fix f assume "f \<in> set (uniqueAffectedFiles (structural @ semantic))"
  then show "f = last (filter (\<lambda>x. entry_key x = entry_key f) (structural @ semantic))"
    using uniqueAffectedFiles_last by blast
next
  fix f assume f: "f \<in> set (uniqueAffectedFiles (structural @ semantic))"
    and k: "entry_key f \<in> entry_key ` set semantic"
  let ?P = "\<lambda>x. entry_key x = entry_key f"
  from k have ne: "filter ?P semantic \<noteq> []"
    by (auto simp: filter_empty_conv)
  from f have "f = last (filter ?P (structural @ semantic))"
    using uniqueAffectedFiles_last by blast
  also have "\<dots> = last (filter ?P semantic)"
    using ne by simp
  also have "\<dots> \<in> set (filter ?P semantic)"
    using ne by (rule last_in_set)
  finally show "f \<in> set semantic" by simp
qed

theorem uniqueAffectedFiles_last_wins_witness:
  "uniqueAffectedFiles
     ([\<lparr>repoId = ''R2'', filePath = ''c.ts'', reason = ''Imports a.ts''\<rparr>] @
      [\<lparr>repoId = ''R2'', filePath = ''c.ts'', reason = ''Uses modified functions: foo (line 1)''\<rparr>])
   = [\<lparr>repoId = ''R2'', filePath = ''c.ts'', reason = ''Uses modified functions: foo (line 1)''\<rparr>]"
proof -
  let ?s = "\<lparr>repoId = ''R2'', filePath = ''c.ts'', reason = ''Imports a.ts''\<rparr>"
  let ?t = "\<lparr>repoId = ''R2'', filePath = ''c.ts'', reason = ''Uses modified functions: foo (line 1)''\<rparr>"
  have k: "map entry_key (uniqueAffectedFiles ([?s] @ [?t])) = [''R2:c.ts'']"
    using uniqueAffectedFiles_last_wins [of "[?s]" "[?t]"] by (simp add: entry_key_def)
  then obtain f where u: "uniqueAffectedFiles ([?s] @ [?t]) = [f]"
    by auto
  then have "f \<in> set (uniqueAffectedFiles ([?s] @ [?t]))" by simp
  moreover have "entry_key f = ''R2:c.ts''" using k u by simp
  ultimately have "f \<in> set [?t]"
    using uniqueAffectedFiles_last_wins [of "[?s]" "[?t]"] by (simp add: entry_key_def)
  with u show ?thesis by simp
qed

text \<open>
  In \<open>scenario_graph\<close>, \<open>c.ts\<close> of R2 imports the changed file and also uses the changed
  function \<open>foo\<close>: the traversal reports it with an import reason, the scan with a usage
  reason, and the single entry of the result carries the usage reason, the later one.
\<close>

theorem dedup_first_wins_counterexample:
  "findAffectedFiles scenario_graph ''R1:a.ts'' ''R1'' =
     [\<lparr>repoId = ''R2'', filePath = ''c.ts'', reason = ''Imports R1:a.ts''\<rparr>] \<and>
   affectedFiles (analyzeFileChange (scenario_env scenario_graph breaking_foo_reply)
       ''P'' ''R1'' ''a.ts'' (Some ''old'') (Some ''new'')) =
     [\<lparr>repoId = ''R2'', filePath = ''c.ts'', reason = ''Uses modified functions: foo (line 1)''\<rparr>]"
  by code_simp

subsection \<open>Node ids\<close>

lemma split_str_hd: "\<exists>ws. split_str sep s = takeWhile (\<lambda>c. c \<noteq> sep) s # ws"
  by (induction s) auto

lemma fst_split_id: "fst (split_id s) = takeWhile (\<lambda>c. c \<noteq> CHR '':'') s"
proof -
  obtain ws where "split_str (CHR '':'') s = takeWhile (\<lambda>c. c \<noteq> CHR '':'') s # ws"
    using split_str_hd by blast
  then show ?thesis by (simp add: split_id_def)
qed

lemma prefix_fst_split_id: "prefix (fst (split_id s)) s"
  unfolding fst_split_id by (rule prefixI [of _ _ "dropWhile (\<lambda>c. c \<noteq> CHR '':'') s"]) simp

subsection \<open>Entries of the traversal\<close>

lemma affected_visit_edge:
  assumes "list_all (structural_entry c r) (affected st)"
  shows "list_all (structural_entry c r) (affected (visit_edge c r st e))"
  using assms by (simp add: visit_edge_def structural_entry_def split: prod.splits)

lemma affected_foldl_visit_edge:
  "list_all (structural_entry c r) (affected st) \<Longrightarrow>
   list_all (structural_entry c r) (affected (foldl (visit_edge c r) st es))"
  by (induction es arbitrary: st) (simp_all add: affected_visit_edge)

lemma affected_bfs_step:
  "list_all (structural_entry c r) (affected st) \<Longrightarrow>
   list_all (structural_entry c r) (affected (bfs_step g c r st))"
  by (cases "queue st") (simp_all add: bfs_step_def affected_foldl_visit_edge)

lemma affected_bfs_loop:
  "list_all (structural_entry c r) (affected st) \<Longrightarrow>
   list_all (structural_entry c r) (affected (bfs_loop g c r st))"
proof (induction g c r st rule: bfs_loop.induct)
  case (1 g c r st)
  show ?case
  proof (cases "queue st = []")
    case True
    with "1.prems" show ?thesis by (subst bfs_loop.simps) simp
  next
    case False
    from "1.IH" [OF False affected_bfs_step [OF "1.prems"]] False
    show ?thesis by (subst bfs_loop.simps) simp
  qed
qed

lemma findAffectedFiles_entries:
  "list_all (structural_entry c r) (findAffectedFiles g c r)"
  unfolding findAffectedFiles_def by (rule affected_bfs_loop) (simp add: bfs_init_def)

subsection \<open>Entries of the semantic scan\<close>

lemma scan_file_entries:
  assumes "f \<in> set (scan_file fs fl found n)"
  shows "f \<in> set found \<or> (repoId f, filePath f) = split_id (node_id n)"
proof -
  obtain a b where ab: "split_id (node_id n) = (a, b)"
    by (cases "split_id (node_id n)")
  show ?thesis
  proof (cases "fs a b")
    case Missing
    with assms ab show ?thesis by (simp add: scan_file_def)
  next
    case Unreadable
    with assms ab show ?thesis by (simp add: scan_file_def)
  next
    case (Content t)
    with assms ab show ?thesis
      by (cases "usages_of t fl = []") (auto simp: scan_file_def Let_def)
  qed
qed

lemma foldl_scan_file_entries:
  "f \<in> set (foldl (scan_file fs fl) found ns) \<Longrightarrow>
   f \<in> set found \<or> (\<exists>n \<in> set ns. (repoId f, filePath f) = split_id (node_id n))"
proof (induction ns arbitrary: found)
  case Nil
  then show ?case by simp
next
  case (Cons n ns)
  from Cons.IH [of "scan_file fs fl found n"] Cons.prems
  have "f \<in> set (scan_file fs fl found n) \<or>
        (\<exists>m \<in> set ns. (repoId f, filePath f) = split_id (node_id m))"
    by simp
  then show ?case
    using scan_file_entries [of f fs fl found n] by auto
qed

lemma length_scan_file: "length (scan_file fs fl found n) \<le> Suc (length found)"
  by (simp add: scan_file_def Let_def split: prod.splits file_read.splits)

lemma length_foldl_scan_file:
  "length (foldl (scan_file fs fl) found ns) \<le> length found + length ns"
proof (induction ns arbitrary: found)
  case Nil
  show ?case by simp
next
  case (Cons n ns)
  from Cons.IH [of "scan_file fs fl found n"] length_scan_file [of fs fl found n]
  show ?case by simp
qed

lemma searchForAffectedFiles_sample:
  assumes "f \<in> set (searchForAffectedFiles g fs r fns)"
  shows "\<exists>n \<in> set (take 50 (otherRepoFiles g r)).
           node_type n = ''FILE'' \<and> (repoId f, filePath f) = split_id (node_id n)"
proof -
  from assms have "f \<in> set (foldl (scan_file fs (filter (\<lambda>f. length f > 2) (map trim fns))) []
                       (take 50 (otherRepoFiles g r)))"
    by (simp add: searchForAffectedFiles_def Let_def split: if_splits)
  then obtain n where n: "n \<in> set (take 50 (otherRepoFiles g r))"
    and f: "(repoId f, filePath f) = split_id (node_id n)"
    using foldl_scan_file_entries by fastforce
  from n have "n \<in> set (otherRepoFiles g r)" by (rule in_set_takeD)
  then have "node_type n = ''FILE''" by (simp add: otherRepoFiles_def)
  with n f show ?thesis by blast
qed

lemma searchForAffectedFiles_other_repo:
  assumes "f \<in> set (searchForAffectedFiles g fs r fns)"
  shows "repoId f \<noteq> r"
proof -
  from searchForAffectedFiles_sample [OF assms]
  obtain n where n: "n \<in> set (take 50 (otherRepoFiles g r))"
    and f: "(repoId f, filePath f) = split_id (node_id n)"
    by blast
  from n have "n \<in> set (otherRepoFiles g r)" by (rule in_set_takeD)
  then have "\<not> prefix r (node_id n)" by (simp add: otherRepoFiles_def)
  moreover from f have "repoId f = fst (split_id (node_id n))"
    by (metis fst_conv)
  ultimately show ?thesis
    using prefix_fst_split_id [of "node_id n"] by auto
qed

lemma length_searchForAffectedFiles: "length (searchForAffectedFiles g fs r fns) \<le> 50"
proof -
  have "length (foldl (scan_file fs fl) [] (take 50 (otherRepoFiles g r))) \<le> 50" for fl
    using length_foldl_scan_file [of fs fl "[]" "take 50 (otherRepoFiles g r)"] by simp
  then show ?thesis by (simp add: searchForAffectedFiles_def Let_def)
qed

lemma classification_of_semantic:
  "cls_semantic (classification_of e rid oc nc) = [] \<or>
   (\<exists>fns. cls_semantic (classification_of e rid oc nc) =
            searchForAffectedFiles (env_graph e) (env_fs e) rid fns)"
  by (auto simp: classification_of_def classify_def unclassified_def semantic_step_def
      split: option.splits ai_reply.splits jsval.splits)

lemma classification_of_other_repo:
  "f \<in> set (cls_semantic (classification_of e rid oc nc)) \<Longrightarrow> repoId f \<noteq> rid"
  using classification_of_semantic [of e rid oc nc] searchForAffectedFiles_other_repo by fastforce

lemma basename_of_path:
  assumes "name \<noteq> []" and "CHR ''/'' \<notin> set name"
  shows "basename (pre @ ''/'' @ name) = name"
proof -
  from assms(1) obtain c cs where r: "rev name = c # cs"
    by (cases "rev name") auto
  have all: "\<forall>x \<in> set (c # cs). x \<noteq> CHR ''/''"
    using assms(2) r by (metis set_rev)
  then have c: "c \<noteq> CHR ''/''" by simp
  have "rev (pre @ ''/'' @ name) = (c # cs) @ CHR ''/'' # rev pre"
    by (simp add: r)
  moreover have "dropWhile (\<lambda>x. x = CHR ''/'') ((c # cs) @ CHR ''/'' # rev pre)
                   = (c # cs) @ CHR ''/'' # rev pre"
    using c by simp
  moreover have "takeWhile (\<lambda>x. x \<noteq> CHR ''/'') ((c # cs) @ CHR ''/'' # rev pre) = c # cs"
    using all by (subst takeWhile_append2) auto
  ultimately have "basename (pre @ ''/'' @ name) = rev (c # cs)"
    by (simp only: basename_def)
  then show ?thesis by (simp add: r [symmetric])
qed

text \<open>
  C4. Every entry of the affected-file list that \<open>analyzeFileChange\<close> returns names a
  repository other than the repository of the changed file. This holds for every entry
  of the traversal, which follows dependents of the same repository without reporting
  them, and for every entry of the semantic scan, which comes from one of the first 50
  FILE nodes that do not start with the id of the source repository.
\<close>

theorem affected_files_other_repository:
  "(\<forall>f \<in> set (affectedFiles (analyzeFileChange e pid rid fpath oldContent newContent)).
      repoId f \<noteq> rid) \<and>
   (\<forall>f \<in> set (findAffectedFiles g changedNodeId rid). repoId f \<noteq> rid) \<and>
   (\<forall>f \<in> set (searchForAffectedFiles g fs rid changedFunctions). repoId f \<noteq> rid) \<and>
   (\<forall>f \<in> set (searchForAffectedFiles g fs rid changedFunctions).
      \<exists>n \<in> set (take 50 (otherRepoFiles g rid)).
        node_type n = ''FILE'' \<and> (repoId f, filePath f) = split_id (node_id n)) \<and>
   length (searchForAffectedFiles g fs rid changedFunctions) \<le> 50"
proof (intro conjI ballI)
  fix f assume "f \<in> set (findAffectedFiles g changedNodeId rid)"
  with findAffectedFiles_entries [of changedNodeId rid g] show "repoId f \<noteq> rid"
    by (simp add: list_all_iff structural_entry_def)
next
  fix f assume "f \<in> set (searchForAffectedFiles g fs rid changedFunctions)"
  then show "repoId f \<noteq> rid" by (rule searchForAffectedFiles_other_repo)
next
  fix f assume "f \<in> set (searchForAffectedFiles g fs rid changedFunctions)"
  then show "\<exists>n \<in> set (take 50 (otherRepoFiles g rid)).
        node_type n = ''FILE'' \<and> (repoId f, filePath f) = split_id (node_id n)"
    by (rule searchForAffectedFiles_sample)
next
  show "length (searchForAffectedFiles g fs rid changedFunctions) \<le> 50"
    by (rule length_searchForAffectedFiles)
next
  fix f assume f: "f \<in> set (affectedFiles (analyzeFileChange e pid rid fpath oldContent newContent))"
  show "repoId f \<noteq> rid"
  proof (cases "find_changed (nodes (env_graph e)) (possibleNodeIds rid fpath)")
    case None
    with f show ?thesis by (simp add: analyzeFileChange_def createEmptyResult_def)
  next
    case (Some c)
    let ?cls = "classification_of e rid oldContent newContent"
    from f Some have "f \<in> set (uniqueAffectedFiles (findAffectedFiles (env_graph e) c rid @ cls_semantic ?cls))"
      by (simp add: analyzeFileChange_def Let_def split: if_splits)
    then have "f \<in> set (findAffectedFiles (env_graph e) c rid) \<or> f \<in> set (cls_semantic ?cls)"
      using set_uniqueAffectedFiles by fastforce
    then show ?thesis
    proof
      assume "f \<in> set (findAffectedFiles (env_graph e) c rid)"
      with findAffectedFiles_entries [of c rid "env_graph e"] show ?thesis
        by (simp add: list_all_iff structural_entry_def)
    next
      assume "f \<in> set (cls_semantic ?cls)"
      then show ?thesis by (rule classification_of_other_repo)
    qed
  qed
qed

theorem affected_files_other_repository_witness:
  "''R1:b.ts'' \<in> set (visited (bfs_loop cycle_graph ''R1:a.ts'' ''R1'' (bfs_init ''R1:a.ts''))) \<and>
   affectedFiles (analyzeFileChange (scenario_env cycle_graph breaking_foo_reply)
       ''P'' ''R1'' ''a.ts'' (Some ''old'') (Some ''new'')) =
     [\<lparr>repoId = ''R2'', filePath = ''c.ts'', reason = ''Uses modified functions: foo (line 1)''\<rparr>] \<and>
   ''R1'' \<notin> repoId ` set (affectedFiles (analyzeFileChange (scenario_env cycle_graph breaking_foo_reply)
       ''P'' ''R1'' ''a.ts'' (Some ''old'') (Some ''new'')))"
proof -
  have v: "''R1:b.ts'' \<in> set (visited (bfs_loop cycle_graph ''R1:a.ts'' ''R1'' (bfs_init ''R1:a.ts'')))"
    by (simp add: bfs_cycle_example)
  have a: "affectedFiles (analyzeFileChange (scenario_env cycle_graph breaking_foo_reply)
       ''P'' ''R1'' ''a.ts'' (Some ''old'') (Some ''new'')) =
     [\<lparr>repoId = ''R2'', filePath = ''c.ts'', reason = ''Uses modified functions: foo (line 1)''\<rparr>]"
    by code_simp
  from affected_files_other_repository
    [of "scenario_env cycle_graph breaking_foo_reply" "''P''" "''R1''" "''a.ts''" "Some ''old''" "Some ''new''"]
  have "\<forall>f \<in> set (affectedFiles (analyzeFileChange (scenario_env cycle_graph breaking_foo_reply)
       ''P'' ''R1'' ''a.ts'' (Some ''old'') (Some ''new''))). repoId f \<noteq> ''R1''"
    by (rule conjunct1)
  then have "''R1'' \<notin> repoId ` set (affectedFiles (analyzeFileChange
       (scenario_env cycle_graph breaking_foo_reply) ''P'' ''R1'' ''a.ts'' (Some ''old'') (Some ''new'')))"
    by (rule notin_image)
  with v a show ?thesis by (intro conjI)
qed

lemma basename_no_slash:
  assumes "CHR ''/'' \<notin> set p"
  shows "basename p = p"
proof -
  from assms have a: "\<forall>c \<in> set (rev p). c \<noteq> CHR ''/''" by auto
  then have d: "dropWhile (\<lambda>c. c = CHR ''/'') (rev p) = rev p"
    by (cases "rev p") auto
  from a have t: "takeWhile (\<lambda>c. c \<noteq> CHR ''/'') (rev p) = rev p"
    by (rule takeWhile_eq_all_conv [THEN iffD2])
  show ?thesis by (simp only: basename_def d t rev_rev_ident)
qed

lemma basename_win32_posix:
  assumes "backslash \<notin> set p" and "\<not> has_drive_prefix p"
  shows "basename_win32 p = basename p"
proof -
  have sep: "is_win32_separator c = (c = CHR ''/'')" if "c \<in> set (rev p)" for c
    using that assms(1) by (auto simp: is_win32_separator_def)
  have d: "dropWhile is_win32_separator (rev p) = dropWhile (\<lambda>c. c = CHR ''/'') (rev p)"
    by (rule dropWhile_cong) (simp_all add: sep)
  have "takeWhile (\<lambda>c. \<not> is_win32_separator c) (dropWhile (\<lambda>c. c = CHR ''/'') (rev p)) =
        takeWhile (\<lambda>c. c \<noteq> CHR ''/'') (dropWhile (\<lambda>c. c = CHR ''/'') (rev p))"
  proof (rule takeWhile_cong)
    fix c assume "c \<in> set (dropWhile (\<lambda>c. c = CHR ''/'') (rev p))"
    then have "c \<in> set (rev p)" by (rule set_dropWhileD)
    then show "(\<not> is_win32_separator c) = (c \<noteq> CHR ''/'')" by (simp add: sep)
  qed simp
  with d show ?thesis
    using assms(2) by (simp add: basename_win32_def basename_def)
qed

text \<open>
  C9. An entry of the traversal is to carry the reason \<^verbatim>\<open>Imports\<close> followed by the base
  name of the changed file. The code takes the base name of the changed node id,
  \<^verbatim>\<open>repo:path\<close>, instead. For a changed file in a directory the two are the same, as in
  \<open>nested_graph\<close>, where \<open>c.ts\<close> of R2 is reported with the reason \<^verbatim>\<open>Imports a.ts\<close>.
  For a changed file at the root of its repository the node id has no separator and the
  repository id stays in the reason: in \<open>scenario_graph\<close>, changing \<open>a.ts\<close> of R1 with a
  breaking classification and no changed function reports \<open>c.ts\<close> of R2 with the reason
  \<^verbatim>\<open>Imports R1:a.ts\<close>, which does not contain \<^verbatim>\<open>Imports a.ts\<close> in either letter
  case, although the base name of the changed file is \<open>a.ts\<close>. The Windows flavour of
  \<^verbatim>\<open>path.basename\<close> returns the same for this node id.
\<close>

theorem structural_reason_root_level:
  "affectedFiles (analyzeFileChange (scenario_env scenario_graph breaking_reply)
       ''P'' ''R1'' ''a.ts'' (Some ''old'') (Some ''new'')) =
     [\<lparr>repoId = ''R2'', filePath = ''c.ts'', reason = ''Imports R1:a.ts''\<rparr>] \<and>
   basename ''a.ts'' = ''a.ts'' \<and>
   basename ''R1:a.ts'' = ''R1:a.ts'' \<and>
   basename_win32 ''R1:a.ts'' = ''R1:a.ts'' \<and>
   \<not> str_includes ''Imports R1:a.ts'' ''Imports a.ts'' \<and>
   \<not> str_includes ''Imports R1:a.ts'' ''imports a.ts'' \<and>
   affectedFiles (analyzeFileChange (scenario_env nested_graph breaking_reply)
       ''P'' ''R1'' ''src/a.ts'' (Some ''old'') (Some ''new'')) =
     [\<lparr>repoId = ''R2'', filePath = ''c.ts'', reason = ''Imports a.ts''\<rparr>]"
  by code_simp

subsection \<open>Failures of the collaborators\<close>

lemma scan_file_skip_unreadable: "scan_file (skip_unreadable fs) = scan_file fs"
  by (intro ext)
     (simp add: scan_file_def skip_unreadable_def split: prod.splits file_read.splits)

lemma searchForAffectedFiles_skip_unreadable:
  "searchForAffectedFiles g (skip_unreadable fs) = searchForAffectedFiles g fs"
  by (intro ext) (simp add: searchForAffectedFiles_def scan_file_skip_unreadable Let_def)

lemma classification_of_skip_unreadable:
  "classification_of (e\<lparr>env_fs := skip_unreadable (env_fs e)\<rparr>) rid oc nc =
   classification_of e rid oc nc"
  by (simp add: classification_of_def classify_def semantic_step_def
      searchForAffectedFiles_skip_unreadable
      split: option.splits ai_reply.splits jsval.splits)

lemma classify_failed:
  assumes "r = Throws \<or> (\<exists>t. r = Reply t \<and> jsonMatch t = None) \<or>
           (\<exists>t m. r = Reply t \<and> jsonMatch t = Some m \<and> env_json_parse e m = None)"
  shows "classify e rid r = unclassified"
  using assms by (auto simp: classify_def)

lemma analyzeFileChange_unclassified:
  assumes "classification_of e rid oc nc = unclassified"
  shows "analyzeFileChange e pid rid fpath oc nc = analyzeFileChange e pid rid fpath None None"
    and "isBreaking (analyzeFileChange e pid rid fpath oc nc) = JBool False"
    and "affectedFiles (analyzeFileChange e pid rid fpath oc nc) = []"
    and "severity (analyzeFileChange e pid rid fpath oc nc) = LOW"
proof -
  have n: "classification_of e rid None None = unclassified"
    by (simp add: classification_of_def)
  show "analyzeFileChange e pid rid fpath oc nc = analyzeFileChange e pid rid fpath None None"
    by (simp add: analyzeFileChange_def assms n Let_def split: option.splits)
  show "isBreaking (analyzeFileChange e pid rid fpath oc nc) = JBool False"
    by (simp add: analyzeFileChange_def assms unclassified_def createEmptyResult_def Let_def
        split: option.splits)
  show "affectedFiles (analyzeFileChange e pid rid fpath oc nc) = []"
    by (simp add: analyzeFileChange_def assms unclassified_def createEmptyResult_def Let_def
        split: option.splits)
  show "severity (analyzeFileChange e pid rid fpath oc nc) = LOW"
    by (simp add: analyzeFileChange_def assms unclassified_def createEmptyResult_def Let_def
        split: option.splits)
qed

lemma analyzeFileChange_header:
  "projectId (analyzeFileChange e pid rid fpath oc nc) = pid \<and>
   changedFile (analyzeFileChange e pid rid fpath oc nc) = fpath \<and>
   changedRepo (analyzeFileChange e pid rid fpath oc nc) = rid \<and>
   timestamp (analyzeFileChange e pid rid fpath oc nc) = env_now e"
  by (simp add: analyzeFileChange_def createEmptyResult_def Let_def split: option.splits)

text \<open>
  C7. A classifier that throws, a reply without a brace-delimited object, a reply whose
  object does not parse, and a file that cannot be read contribute nothing and fail
  nothing: with one of the first three the analysis returns what it returns without any
  content (breaking flag \<^verbatim>\<open>false\<close>, no affected files, severity LOW), an unreadable
  file is skipped like an absent one, and every result is complete.
\<close>

theorem analysis_survives_failures:
  "(old \<noteq> [] \<and> new \<noteq> [] \<and>
    (env_classifier e (take 2000 old) (take 2000 new) = Throws \<or>
     (\<exists>t. env_classifier e (take 2000 old) (take 2000 new) = Reply t \<and> jsonMatch t = None) \<or>
     (\<exists>t m. env_classifier e (take 2000 old) (take 2000 new) = Reply t \<and>
             jsonMatch t = Some m \<and> env_json_parse e m = None)) \<longrightarrow>
      analyzeFileChange e pid rid fpath (Some old) (Some new) =
        analyzeFileChange e pid rid fpath None None \<and>
      isBreaking (analyzeFileChange e pid rid fpath (Some old) (Some new)) = JBool False \<and>
      affectedFiles (analyzeFileChange e pid rid fpath (Some old) (Some new)) = [] \<and>
      severity (analyzeFileChange e pid rid fpath (Some old) (Some new)) = LOW) \<and>
   (split_id (node_id n) = (r, p) \<and> env_fs e r p = Unreadable \<longrightarrow>
      scan_file (env_fs e) functionList found n = found) \<and>
   analyzeFileChange (e\<lparr>env_fs := skip_unreadable (env_fs e)\<rparr>) pid rid fpath oldContent newContent =
     analyzeFileChange e pid rid fpath oldContent newContent \<and>
   projectId (analyzeFileChange e pid rid fpath oldContent newContent) = pid \<and>
   changedFile (analyzeFileChange e pid rid fpath oldContent newContent) = fpath \<and>
   changedRepo (analyzeFileChange e pid rid fpath oldContent newContent) = rid \<and>
   timestamp (analyzeFileChange e pid rid fpath oldContent newContent) = env_now e"
proof (intro conjI impI)
  assume a: "old \<noteq> [] \<and> new \<noteq> [] \<and>
    (env_classifier e (take 2000 old) (take 2000 new) = Throws \<or>
     (\<exists>t. env_classifier e (take 2000 old) (take 2000 new) = Reply t \<and> jsonMatch t = None) \<or>
     (\<exists>t m. env_classifier e (take 2000 old) (take 2000 new) = Reply t \<and>
             jsonMatch t = Some m \<and> env_json_parse e m = None))"
  then have "classify e rid (env_classifier e (take 2000 old) (take 2000 new)) = unclassified"
    by (intro classify_failed) blast
  with a have u: "classification_of e rid (Some old) (Some new) = unclassified"
    by (simp add: classification_of_def)
  show "analyzeFileChange e pid rid fpath (Some old) (Some new) =
          analyzeFileChange e pid rid fpath None None"
    by (rule analyzeFileChange_unclassified(1) [OF u])
  show "isBreaking (analyzeFileChange e pid rid fpath (Some old) (Some new)) = JBool False"
    by (rule analyzeFileChange_unclassified(2) [OF u])
  show "affectedFiles (analyzeFileChange e pid rid fpath (Some old) (Some new)) = []"
    by (rule analyzeFileChange_unclassified(3) [OF u])
  show "severity (analyzeFileChange e pid rid fpath (Some old) (Some new)) = LOW"
    by (rule analyzeFileChange_unclassified(4) [OF u])
next
  assume "split_id (node_id n) = (r, p) \<and> env_fs e r p = Unreadable"
  then show "scan_file (env_fs e) functionList found n = found"
    by (simp add: scan_file_def)
next
  show "analyzeFileChange (e\<lparr>env_fs := skip_unreadable (env_fs e)\<rparr>) pid rid fpath oldContent newContent =
     analyzeFileChange e pid rid fpath oldContent newContent"
    by (simp add: analyzeFileChange_def classification_of_skip_unreadable Let_def
        split: option.splits)
qed (simp_all add: analyzeFileChange_header)

theorem analysis_survives_failures_witness:
  "env_classifier failing_env (take 2000 ''old'') (take 2000 ''new'') = Throws \<and>
   env_fs failing_env ''R2'' ''c.ts'' = Unreadable \<and>
   analyzeFileChange failing_env ''P'' ''R1'' ''a.ts'' (Some ''old'') (Some ''new'') =
     analyzeFileChange failing_env ''P'' ''R1'' ''a.ts'' None None \<and>
   isBreaking (analyzeFileChange failing_env ''P'' ''R1'' ''a.ts'' (Some ''old'') (Some ''new'')) = JBool False \<and>
   affectedFiles (analyzeFileChange failing_env ''P'' ''R1'' ''a.ts'' (Some ''old'') (Some ''new'')) = [] \<and>
   severity (analyzeFileChange failing_env ''P'' ''R1'' ''a.ts'' (Some ''old'') (Some ''new'')) = LOW \<and>
   scan_file (env_fs failing_env) [''foo''] [] (file_node ''R2:c.ts'') = [] \<and>
   affectedFiles (analyzeFileChange unreadable_env ''P'' ''R1'' ''a.ts'' (Some ''old'') (Some ''new'')) =
     [\<lparr>repoId = ''R2'', filePath = ''c.ts'', reason = ''Imports R1:a.ts''\<rparr>]"
proof -
  have c: "env_classifier failing_env (take 2000 ''old'') (take 2000 ''new'') = Throws"
    by (simp add: failing_env_def scenario_env_def throwing_classifier_def)
  have u: "env_fs failing_env ''R2'' ''c.ts'' = Unreadable"
    by (simp add: failing_env_def scenario_env_def unreadable_fs_def)
  have s: "split_id (node_id (file_node ''R2:c.ts'')) = (''R2'', ''c.ts'')"
    by code_simp
  have k: "affectedFiles (analyzeFileChange unreadable_env ''P'' ''R1'' ''a.ts'' (Some ''old'') (Some ''new'')) =
     [\<lparr>repoId = ''R2'', filePath = ''c.ts'', reason = ''Imports R1:a.ts''\<rparr>]"
    by code_simp
  note t = analysis_survives_failures [of "''old''" "''new''" failing_env "''P''" "''R1''" "''a.ts''"
      "file_node ''R2:c.ts''" "''R2''" "''c.ts''" "[''foo'']" "[]"]
  have c2: "env_classifier failing_env ''old'' ''new'' = Throws"
    using c by simp
  have b: "analyzeFileChange failing_env ''P'' ''R1'' ''a.ts'' (Some ''old'') (Some ''new'') =
       analyzeFileChange failing_env ''P'' ''R1'' ''a.ts'' None None \<and>
     isBreaking (analyzeFileChange failing_env ''P'' ''R1'' ''a.ts'' (Some ''old'') (Some ''new'')) = JBool False \<and>
     affectedFiles (analyzeFileChange failing_env ''P'' ''R1'' ''a.ts'' (Some ''old'') (Some ''new'')) = [] \<and>
     severity (analyzeFileChange failing_env ''P'' ''R1'' ''a.ts'' (Some ''old'') (Some ''new'')) = LOW"
    by (rule mp [OF t [THEN conjunct1]]) (simp add: c2)
  have d: "scan_file (env_fs failing_env) [''foo''] [] (file_node ''R2:c.ts'') = []"
    by (rule mp [OF t [THEN conjunct2, THEN conjunct1]]) (simp only: s u simp_thms)
  from c u b d k show ?thesis by (intro conjI) (elim conjE, assumption)+
qed

subsection \<open>The retry loop with the default budget of three attempts\<close>

lemma generateContent_loop_3:
  "generateContent_loop api 3 3 tr =
     (case api 3 of
        Replied t \<Rightarrow> (t, tr @ [Call 3])
      | Failed err \<Rightarrow> ([], tr @ [Call 3]))"
  by (subst generateContent_loop.simps) (simp split: attempt_outcome.splits)

lemma generateContent_loop_2:
  "generateContent_loop api 3 2 tr =
     (case api 2 of
        Replied t \<Rightarrow> (t, tr @ [Call 2])
      | Failed err \<Rightarrow>
          generateContent_loop api 3 3
            (tr @ (if isRateLimit err then [Call 2, Sleep 4000] else [Call 2])))"
  by (subst generateContent_loop.simps) (simp split: attempt_outcome.splits)

lemma generateContent_loop_1:
  "generateContent_loop api 3 1 tr =
     (case api 1 of
        Replied t \<Rightarrow> (t, tr @ [Call 1])
      | Failed err \<Rightarrow>
          generateContent_loop api 3 2
            (tr @ (if isRateLimit err then [Call 1, Sleep 2000] else [Call 1])))"
  by (subst generateContent_loop.simps) (simp add: numeral_2_eq_2 split: attempt_outcome.splits)

lemmas generateContent_3 =
  generateContent_def generateContent_loop_1 generateContent_loop_2 generateContent_loop_3

text \<open>
  C8, as the code has it. With the default budget the model is called at most three
  times, in attempts 1, 2, 3 without gaps. A sleep follows a call exactly when that call
  failed with a rate-limit error and was not the last attempt, and lasts 2000 ms after
  attempt 1 and 4000 ms after attempt 2. Every failed attempt before the third is
  followed by another attempt, whether or not it was a rate-limit failure, and without a
  sleep when it was not; a further attempt is made only after a failure. When every
  attempt made fails the result is the empty string, as it is, with no call at all, when
  no API key is configured.
\<close>

theorem generateContent_retry_policy:
  assumes "generateContent configured api 3 = (r, trace)"
  shows "length (calls trace) \<le> 3 \<and>
         calls trace = [1..<Suc (length (calls trace))] \<and>
         trace = concat (map (\<lambda>n. Call n #
                    (if rate_limited (api n) \<and> n < 3 then [Sleep (2 ^ n * 1000)] else []))
                  (calls trace)) \<and>
         set (sleeps trace) \<subseteq> {2000, 4000} \<and>
         (\<forall>n \<in> set (calls trace). failed (api n) \<and> n < 3 \<longrightarrow> Suc n \<in> set (calls trace)) \<and>
         (\<forall>n \<in> set (calls trace). Suc n \<in> set (calls trace) \<longrightarrow> failed (api n)) \<and>
         ((\<forall>n \<in> set (calls trace). failed (api n)) \<longrightarrow> r = []) \<and>
         (\<not> configured \<longrightarrow> r = [] \<and> trace = [])"
proof -
  note defs = calls_def sleeps_def failed_def rate_limited_def
  show ?thesis
  proof (cases configured)
    case False
    with assms have "r = []" "trace = []"
      by (simp_all add: generateContent_def)
    with False show ?thesis
      by (simp add: defs)
  next
    case True
    show ?thesis
    proof (cases "api 1")
      case (Replied t)
      note a1 = Replied Replied [unfolded One_nat_def]
      from assms True have "r = t" "trace = [Call 1]"
        unfolding generateContent_3 by (simp_all add: a1)
      then show ?thesis
        by (simp add: defs a1 True)
    next
      case (Failed e1)
      note f1 = Failed Failed [unfolded One_nat_def]
      show ?thesis
      proof (cases "api 2")
        case (Replied t)
        from assms True have "r = t"
          "trace = (if isRateLimit e1 then [Call 1, Sleep 2000] else [Call 1]) @ [Call 2]"
          unfolding generateContent_3 by (simp_all add: f1 Replied)
        then show ?thesis
          by (simp add: defs f1 Replied True)
      next
        case f2: (Failed e2)
        have "r = (case api 3 of Replied t \<Rightarrow> t | Failed err \<Rightarrow> [])"
          "trace = (if isRateLimit e1 then [Call 1, Sleep 2000] else [Call 1]) @
                   (if isRateLimit e2 then [Call 2, Sleep 4000] else [Call 2]) @ [Call 3]"
          using assms [symmetric] True unfolding generateContent_3
          by (auto simp: f1 f2 split: attempt_outcome.splits)
        then show ?thesis
          by (cases "api 3") (simp_all add: defs f1 f2 True)
      qed
    qed
  qed
qed

theorem generateContent_retry_policy_witness:
  "generateContent True throttled_api 3 = ([], [Call 1, Sleep 2000, Call 2, Sleep 4000, Call 3]) \<and>
   length (calls [Call 1, Sleep 2000, Call 2, Sleep 4000, Call 3]) \<le> 3 \<and>
   set (sleeps [Call 1, Sleep 2000, Call 2, Sleep 4000, Call 3]) \<subseteq> {2000, 4000} \<and>
   list_all (\<lambda>n. failed (throttled_api n)) (calls [Call 1, Sleep 2000, Call 2, Sleep 4000, Call 3])"
proof -
  have eq: "generateContent True throttled_api 3 =
              ([], [Call 1, Sleep 2000, Call 2, Sleep 4000, Call 3])"
    by code_simp
  have f: "list_all (\<lambda>n. failed (throttled_api n)) (calls [Call 1, Sleep 2000, Call 2, Sleep 4000, Call 3])"
    by (simp add: failed_def throttled_api_def list_all_iff)
  from generateContent_retry_policy [OF eq]
  have "length (calls [Call 1, Sleep 2000, Call 2, Sleep 4000, Call 3]) \<le> 3"
    and "set (sleeps [Call 1, Sleep 2000, Call 2, Sleep 4000, Call 3]) \<subseteq> {2000, 4000}"
    by blast+
  with eq f show ?thesis by (intro conjI)
qed

text \<open>
  A failure that is not a rate limit is retried: the first call fails with a server
  error, a second call is made at once, and its reply is the result.
\<close>

theorem retry_after_server_error_counterexample:
  "\<not> isRateLimit server_error \<and>
   generateContent True flaky_api 3 = (''ok'', [Call 1, Call 2])"
  by code_simp

end
